theory Spec2Isabelle
  imports Main "HOL-Library.Word"
begin

unbundle bit_operations_syntax

section \<open>The SPSC ring buffer of spsc_ring_bench.cpp\<close>

text \<open>
  \<open>std::size_t\<close> is modelled as a 64-bit word (an LP64 platform). The class template
  \<open>SpscRing<T, CapacityPow2>\<close> becomes a record over the element type, and the
  template argument \<open>CapacityPow2\<close> is the first argument of every operation.
  The array \<open>T buf[CapacityPow2]\<close> is a list; an access outside it is undefined
  behaviour in C++, which the model reports as \<open>None\<close>. The memory orders of the
  atomic loads and stores have no meaning for a single sequence of calls and are
  not modelled.
\<close>

type_synonym size_t = "64 word"

record 'a SpscRing =
  head :: size_t
  tail :: size_t
  buf :: "'a list"

text \<open>\<open>static_assert((CapacityPow2 & (CapacityPow2 - 1)) == 0, ...)\<close>\<close>

definition static_assert_pow2 :: "size_t \<Rightarrow> bool" where
  "static_assert_pow2 CapacityPow2 \<longleftrightarrow> CapacityPow2 AND (CapacityPow2 - 1) = 0"

text \<open>\<open>static constexpr std::size_t mask = CapacityPow2 - 1;\<close>\<close>

definition ring_mask :: "size_t \<Rightarrow> size_t" where
  "ring_mask CapacityPow2 = CapacityPow2 - 1"

text \<open>\<open>Ring rb{}\<close>: both indices are zero and every slot holds the value-initialised \<open>T\<close>.\<close>

definition construct :: "size_t \<Rightarrow> 'a \<Rightarrow> 'a SpscRing" where
  "construct CapacityPow2 z = \<lparr>head = 0, tail = 0, buf = replicate (unat CapacityPow2) z\<rparr>"

definition try_push :: "size_t \<Rightarrow> 'a \<Rightarrow> 'a SpscRing \<Rightarrow> (bool \<times> 'a SpscRing) option" where
  "try_push CapacityPow2 x rb =
     (let h = head rb;
          t = tail rb;
          next = (h + 1) AND ring_mask CapacityPow2
      in if next = t then Some (False, rb)
         else if unat h < length (buf rb)
           then Some (True, rb\<lparr>buf := (buf rb)[unat h := x], head := next\<rparr>)
           else None)"

text \<open>
  \<open>try_pop(T &out)\<close> takes the old value of the variable bound to \<open>out\<close> and
  returns its new value next to the result.
\<close>

definition try_pop :: "size_t \<Rightarrow> 'a \<Rightarrow> 'a SpscRing \<Rightarrow> (bool \<times> 'a \<times> 'a SpscRing) option" where
  "try_pop CapacityPow2 out rb =
     (let t = tail rb;
          h = head rb
      in if t = h then Some (False, out, rb)
         else if unat t < length (buf rb)
           then Some (True, buf rb ! unat t, rb\<lparr>tail := (t + 1) AND ring_mask CapacityPow2\<rparr>)
           else None)"

text \<open>
  The loop of \<open>push_many(const T *xs, std::size_t n)\<close>, from the current value of
  \<open>pushed\<close>. The array behind \<open>xs\<close> is a list; naming \<open>xs[pushed]\<close> beyond its
  end is undefined behaviour.
\<close>

function push_many_loop ::
  "size_t \<Rightarrow> 'a list \<Rightarrow> size_t \<Rightarrow> size_t \<Rightarrow> 'a SpscRing \<Rightarrow> (size_t \<times> 'a SpscRing) option" where
  "push_many_loop CapacityPow2 xs n pushed rb =
     (if pushed < n then
        (if unat pushed < length xs then
           (case try_push CapacityPow2 (xs ! unat pushed) rb of
              None \<Rightarrow> None
            | Some (ok, rb') \<Rightarrow>
                if \<not> ok then Some (pushed, rb')
                else push_many_loop CapacityPow2 xs n (pushed + 1) rb')
         else None)
      else Some (pushed, rb))"
  by pat_completeness auto
termination
proof (relation "measure (\<lambda>(c, xs, n, pushed, rb). unat n - unat pushed)")
  show "wf (measure (\<lambda>(c :: size_t, xs :: 'a list, n :: size_t, pushed :: size_t, rb :: 'a SpscRing). unat n - unat pushed))"
    by simp
next
  fix CapacityPow2 :: size_t and xs :: "'a list" and n pushed :: size_t and rb :: "'a SpscRing"
    and x2 :: "bool \<times> 'a SpscRing" and x y
  assume lt: "pushed < n"
  then have "unat pushed < unat n"
    by (simp add: word_less_nat_alt)
  moreover have "unat n < 2 ^ 64"
    using unsigned_less [of n] by simp
  ultimately have "unat (pushed + 1) = unat pushed + 1"
    by (simp add: unat_word_ariths)
  moreover note \<open>unat pushed < unat n\<close>
  ultimately show "((CapacityPow2, xs, n, pushed + 1, y), (CapacityPow2, xs, n, pushed, rb))
        \<in> measure (\<lambda>(c, xs, n, pushed, rb). unat n - unat pushed)"
    by simp
qed

definition push_many :: "size_t \<Rightarrow> 'a list \<Rightarrow> size_t \<Rightarrow> 'a SpscRing \<Rightarrow> (size_t \<times> 'a SpscRing) option" where
  "push_many CapacityPow2 xs n rb = push_many_loop CapacityPow2 xs n 0 rb"

text \<open>
  The loop of \<open>pop_many(T *xs, std::size_t n)\<close>. \<open>try_pop(xs[popped])\<close> binds
  \<open>out\<close> to the array element, so the element's new value is stored back.
\<close>

function pop_many_loop ::
  "size_t \<Rightarrow> 'a list \<Rightarrow> size_t \<Rightarrow> size_t \<Rightarrow> 'a SpscRing
     \<Rightarrow> (size_t \<times> 'a list \<times> 'a SpscRing) option" where
  "pop_many_loop CapacityPow2 xs n popped rb =
     (if popped < n then
        (if unat popped < length xs then
           (case try_pop CapacityPow2 (xs ! unat popped) rb of
              None \<Rightarrow> None
            | Some (ok, out, rb') \<Rightarrow>
                if \<not> ok then Some (popped, xs[unat popped := out], rb')
                else pop_many_loop CapacityPow2 (xs[unat popped := out]) n (popped + 1) rb')
         else None)
      else Some (popped, xs, rb))"
  by pat_completeness auto
termination
proof (relation "measure (\<lambda>(c, xs, n, popped, rb). unat n - unat popped)")
  show "wf (measure (\<lambda>(c :: size_t, xs :: 'a list, n :: size_t, popped :: size_t, rb :: 'a SpscRing). unat n - unat popped))"
    by simp
next
  fix CapacityPow2 :: size_t and xs :: "'a list" and n popped :: size_t and rb :: "'a SpscRing"
    and out :: 'a and y
  assume lt: "popped < n"
  then have "unat popped < unat n"
    by (simp add: word_less_nat_alt)
  moreover have "unat n < 2 ^ 64"
    using unsigned_less [of n] by simp
  ultimately have "unat (popped + 1) = unat popped + 1"
    by (simp add: unat_word_ariths)
  moreover note \<open>unat popped < unat n\<close>
  ultimately show "((CapacityPow2, xs[unat popped := out], n, popped + 1, y), (CapacityPow2, xs, n, popped, rb))
        \<in> measure (\<lambda>(c, xs, n, popped, rb). unat n - unat popped)"
    by simp
qed

definition pop_many ::
  "size_t \<Rightarrow> 'a list \<Rightarrow> size_t \<Rightarrow> 'a SpscRing \<Rightarrow> (size_t \<times> 'a list \<times> 'a SpscRing) option" where
  "pop_many CapacityPow2 xs n rb = pop_many_loop CapacityPow2 xs n 0 rb"

subsection \<open>Sequences of calls\<close>

text \<open>
  A session is one ring buffer driven by a sequence of \<open>try_push\<close> and \<open>try_pop\<close>
  calls, as \<open>producer\<close> and \<open>consumer\<close> issue them. Next to the ring it keeps
  the consumer's variable \<open>val\<close>, the values whose \<open>try_push\<close> returned true and
  the values that a \<open>try_pop\<close> returning true delivered, each in call order.
\<close>

datatype 'a call = Push 'a | Pop

record 'a session =
  ring :: "'a SpscRing"
  val :: 'a
  accepted :: "'a list"
  delivered :: "'a list"

fun do_call :: "size_t \<Rightarrow> 'a call \<Rightarrow> 'a session \<Rightarrow> 'a session option" where
  "do_call CapacityPow2 (Push x) s =
     (case try_push CapacityPow2 x (ring s) of
        None \<Rightarrow> None
      | Some (ok, rb') \<Rightarrow>
          Some (s\<lparr>ring := rb', accepted := (if ok then accepted s @ [x] else accepted s)\<rparr>))"
| "do_call CapacityPow2 Pop s =
     (case try_pop CapacityPow2 (val s) (ring s) of
        None \<Rightarrow> None
      | Some (ok, out, rb') \<Rightarrow>
          Some (s\<lparr>ring := rb', val := out,
                  delivered := (if ok then delivered s @ [out] else delivered s)\<rparr>))"

fun run_calls :: "size_t \<Rightarrow> 'a call list \<Rightarrow> 'a session \<Rightarrow> 'a session option" where
  "run_calls CapacityPow2 [] s = Some s"
| "run_calls CapacityPow2 (c # cs) s =
     (case do_call CapacityPow2 c s of
        None \<Rightarrow> None
      | Some s' \<Rightarrow> run_calls CapacityPow2 cs s')"

definition start :: "size_t \<Rightarrow> 'a \<Rightarrow> 'a session" where
  "start CapacityPow2 z =
     \<lparr>ring = construct CapacityPow2 z, val = z, accepted = [], delivered = []\<rparr>"

text \<open>The number of elements pushed and not yet popped.\<close>

definition live_elements :: "'a session \<Rightarrow> nat" where
  "live_elements s = length (accepted s) - length (delivered s)"

text \<open>The values every \<open>Push\<close> of a call sequence offers.\<close>

fun offered :: "'a call list \<Rightarrow> 'a list" where
  "offered [] = []"
| "offered (Push x # cs) = x # offered cs"
| "offered (Pop # cs) = offered cs"

text \<open>Pushing and popping the values of a list one at a time.\<close>

definition one_at_a_time :: "'a list \<Rightarrow> 'a call list" where
  "one_at_a_time xs = concat (map (\<lambda>x. [Push x, Pop]) xs)"

text \<open>
  The content of the ring: the slots from \<open>tail\<close> up to \<open>head\<close>, cyclically.
\<close>

definition occupied :: "size_t \<Rightarrow> 'a SpscRing \<Rightarrow> nat" where
  "occupied CapacityPow2 rb = unat ((head rb - tail rb) AND ring_mask CapacityPow2)"

definition content :: "size_t \<Rightarrow> 'a SpscRing \<Rightarrow> 'a list" where
  "content CapacityPow2 rb =
     map (\<lambda>i. buf rb ! unat ((tail rb + of_nat i) AND ring_mask CapacityPow2))
       [0..<occupied CapacityPow2 rb]"

text \<open>
  The states the class can be in: the array has \<open>CapacityPow2\<close> slots (its type says
  so) and both indices address a slot.
\<close>

definition ring_ok :: "size_t \<Rightarrow> 'a SpscRing \<Rightarrow> bool" where
  "ring_ok CapacityPow2 rb \<longleftrightarrow>
     length (buf rb) = unat CapacityPow2 \<and> head rb < CapacityPow2 \<and> tail rb < CapacityPow2"

text \<open>A capacity the class is meant for: a power of two (1 included).\<close>

definition pow2_capacity :: "size_t \<Rightarrow> bool" where
  "pow2_capacity CapacityPow2 \<longleftrightarrow> CapacityPow2 \<noteq> 0 \<and> static_assert_pow2 CapacityPow2"

text \<open>
  The session after \<open>Push 10, Pop, Push 20\<close> on a ring of capacity 2: \<open>head\<close>
  has wrapped to 0 while \<open>tail\<close> is 1.
\<close>

definition wrapped_session :: "nat session" where
  "wrapped_session =
     \<lparr>ring = \<lparr>head = 0, tail = 1, buf = [10, 20]\<rparr>, val = 10,
      accepted = [10, 20], delivered = [10]\<rparr>"

subsection \<open>Reachable states\<close>

text \<open>
  The states of a ring that was constructed and then used through its four member
  functions only.
\<close>

inductive reachable :: "size_t \<Rightarrow> 'a SpscRing \<Rightarrow> bool" for CapacityPow2 :: size_t where
  constructed: "reachable CapacityPow2 (construct CapacityPow2 z)"
| after_try_push:
    "reachable CapacityPow2 rb \<Longrightarrow> try_push CapacityPow2 x rb = Some (ok, rb')
       \<Longrightarrow> reachable CapacityPow2 rb'"
| after_try_pop:
    "reachable CapacityPow2 rb \<Longrightarrow> try_pop CapacityPow2 out rb = Some (ok, out', rb')
       \<Longrightarrow> reachable CapacityPow2 rb'"
| after_push_many:
    "reachable CapacityPow2 rb \<Longrightarrow> push_many CapacityPow2 xs n rb = Some (k, rb')
       \<Longrightarrow> reachable CapacityPow2 rb'"
| after_pop_many:
    "reachable CapacityPow2 rb \<Longrightarrow> pop_many CapacityPow2 xs n rb = Some (k, xs', rb')
       \<Longrightarrow> reachable CapacityPow2 rb'"

subsection \<open>The batch operations as the specification words them\<close>

text \<open>
  \<open>push_each\<close> calls \<open>try_push\<close> on the values of a list in order, stops at the first
  call that returns false and counts the calls that returned true.
\<close>

fun push_each :: "size_t \<Rightarrow> 'a list \<Rightarrow> 'a SpscRing \<Rightarrow> (nat \<times> 'a SpscRing) option" where
  "push_each CapacityPow2 [] rb = Some (0, rb)"
| "push_each CapacityPow2 (x # xs) rb =
     (case try_push CapacityPow2 x rb of
        None \<Rightarrow> None
      | Some (ok, rb') \<Rightarrow>
          if ok then map_option (\<lambda>(k, rb''). (Suc k, rb'')) (push_each CapacityPow2 xs rb')
          else Some (0, rb'))"

text \<open>
  \<open>pop_each\<close> calls \<open>try_pop\<close> once for every destination slot of a list in order,
  stops at the first call that returns false and returns the values popped.
\<close>

fun pop_each :: "size_t \<Rightarrow> 'a list \<Rightarrow> 'a SpscRing \<Rightarrow> ('a list \<times> 'a SpscRing) option" where
  "pop_each CapacityPow2 [] rb = Some ([], rb)"
| "pop_each CapacityPow2 (d # ds) rb =
     (case try_pop CapacityPow2 d rb of
        None \<Rightarrow> None
      | Some (ok, out, rb') \<Rightarrow>
          if ok then map_option (\<lambda>(ys, rb''). (out # ys, rb'')) (pop_each CapacityPow2 ds rb')
          else Some ([], rb'))"

section \<open>The sharded counters of the contention benchmark\<close>

text \<open>
  \<open>struct alignas(CLS) PaddedCounter\<close>: the counter \<open>v\<close>; the padding bytes are
  never read and are left out.
\<close>

type_synonym uint64_t = "64 word"

record PaddedCounter =
  v :: uint64_t

text \<open>
  One iteration of the loop of thread \<open>t\<close>: \<open>shards[t].v += 1\<close>. No other thread
  reads or writes \<open>shards[t]\<close>, so the read and the write of one iteration are one
  step.
\<close>

definition increment :: "nat \<Rightarrow> PaddedCounter list \<Rightarrow> PaddedCounter list option" where
  "increment t shards =
     (if t < length shards
      then Some (shards[t := (shards ! t)\<lparr>v := v (shards ! t) + 1\<rparr>])
      else None)"

text \<open>
  The threads run concurrently: a schedule names, step by step, the thread whose next
  iteration runs.
\<close>

fun run_threads :: "nat list \<Rightarrow> PaddedCounter list \<Rightarrow> PaddedCounter list option" where
  "run_threads [] shards = Some shards"
| "run_threads (t # ts) shards =
     (case increment t shards of
        None \<Rightarrow> None
      | Some shards' \<Rightarrow> run_threads ts shards')"

text \<open>
  A schedule of \<open>threads\<close> threads that each run \<open>iters_per_thread\<close> iterations
  and are then joined.
\<close>

definition joined_schedule :: "nat \<Rightarrow> nat \<Rightarrow> nat list \<Rightarrow> bool" where
  "joined_schedule threads iters_per_thread sched \<longleftrightarrow>
     list_all (\<lambda>t. t < threads) sched \<and>
     list_all (\<lambda>t. count_list sched t = iters_per_thread) [0..<threads]"

text \<open>The reduction pass: \<open>sum = 0; for (const auto& pc : shards) sum += pc.v;\<close>\<close>

definition reduction :: "PaddedCounter list \<Rightarrow> uint64_t" where
  "reduction shards = foldl (\<lambda>sum pc. sum + v pc) 0 shards"

text \<open>
  One iteration of the benchmark loop of \<open>BM_ShardedCounters\<close>: the shards start at
  zero, the threads run under a schedule and are joined, and the reduction pass
  yields \<open>sum\<close>.
\<close>

definition BM_ShardedCounters :: "nat \<Rightarrow> nat list \<Rightarrow> uint64_t option" where
  "BM_ShardedCounters threads sched =
     map_option reduction (run_threads sched (replicate threads \<lparr>v = 0\<rparr>))"

section \<open>Arithmetic of the indices\<close>

subsection \<open>Wrapping once around the capacity\<close>

lemma wrap_once:
  fixes x C :: nat
  assumes "x < 2 * C"
  shows "x mod C = (if x < C then x else x - C)"
  using assms by (simp add: le_mod_geq)

lemma count_after_push:
  fixes H T C :: nat
  assumes "H < C" "T < C" "(H + 1) mod C \<noteq> T"
  shows "((H + 1) mod C + C - T) mod C = (H + C - T) mod C + 1"
proof -
  have n: "(H + 1) mod C = (if H + 1 < C then H + 1 else 0)"
    using assms(1) by (simp add: wrap_once)
  have a: "(H + C - T) mod C = (if T \<le> H then H - T else H + C - T)"
    using assms(1,2) by (simp add: wrap_once)
  show ?thesis
  proof (cases "H + 1 < C")
    case True
    with n assms have ne: "H + 1 \<noteq> T" by simp
    have "(H + 1 + C - T) mod C = (if T \<le> H + 1 then H + 1 - T else H + 1 + C - T)"
      using True assms(2) by (simp add: wrap_once)
    with n a True ne assms(1,2) show ?thesis by (simp split: if_splits)
  next
    case False
    with assms(1) have hc: "H + 1 = C" by simp
    with n assms(3) have "T \<noteq> 0" by auto
    then have "(0 + C - T) mod C = C - T" using assms(2) by simp
    with n a hc \<open>T \<noteq> 0\<close> assms(2) show ?thesis by (simp split: if_splits)
  qed
qed

lemma slot_of_head:
  fixes H T C :: nat
  assumes "H < C" "T < C"
  shows "(T + (H + C - T) mod C) mod C = H"
proof -
  have a: "(H + C - T) mod C = (if T \<le> H then H - T else H + C - T)"
    using assms by (simp add: wrap_once)
  show ?thesis
  proof (cases "T \<le> H")
    case True
    with a assms show ?thesis by simp
  next
    case False
    then have "T + (H + C - T) = H + C" using assms by simp
    with a False show ?thesis using assms by simp
  qed
qed

lemma slot_before_head:
  fixes H T C i :: nat
  assumes "H < C" "T < C" "i < (H + C - T) mod C"
  shows "(T + i) mod C \<noteq> H"
proof -
  have a: "(H + C - T) mod C = (if T \<le> H then H - T else H + C - T)"
    using assms by (simp add: wrap_once)
  have "T + i < 2 * C" using assms a by (simp split: if_splits)
  then have "(T + i) mod C = (if T + i < C then T + i else T + i - C)"
    by (rule wrap_once)
  with a assms show ?thesis by (simp split: if_splits)
qed

lemma count_before_pop:
  fixes H T C :: nat
  assumes "H < C" "T < C" "T \<noteq> H"
  shows "(H + C - T) mod C = (H + C - (T + 1) mod C) mod C + 1"
proof -
  have n: "(T + 1) mod C = (if T + 1 < C then T + 1 else 0)"
    using assms(2) by (simp add: wrap_once)
  have a: "(H + C - T) mod C = (if T \<le> H then H - T else H + C - T)"
    using assms(1,2) by (simp add: wrap_once)
  show ?thesis
  proof (cases "T + 1 < C")
    case True
    have "(H + C - (T + 1)) mod C = (if T + 1 \<le> H then H - (T + 1) else H + C - (T + 1))"
      using True assms(1) by (simp add: wrap_once)
    with n a True assms(3) show ?thesis by (simp split: if_splits)
  next
    case False
    with assms(2) have tc: "T + 1 = C" by simp
    have "(H + C - 0) mod C = H" using assms(1) by simp
    with n a tc assms show ?thesis by (simp split: if_splits)
  qed
qed

subsection \<open>Powers of two and the mask\<close>

lemma and_double_pred:
  fixes m :: nat
  assumes "0 < m"
  shows "(2 * m) AND (2 * m - 1) = 2 * (m AND (m - 1))"
proof -
  have "(2 * m - 1) div 2 = m - 1" "(2 * m - 1) mod 2 = 1" using assms by presburger+
  then show ?thesis using assms
    by (subst and_nat_unfold) simp
qed

lemma and_odd_pred:
  fixes m :: nat
  shows "(2 * m + 1) AND (2 * m + 1 - 1) = 2 * m"
  by (subst and_nat_unfold) simp

lemma nat_and_pred_zero:
  fixes n :: nat
  shows "0 < n \<Longrightarrow> n AND (n - 1) = 0 \<Longrightarrow> \<exists>k. n = 2 ^ k"
proof (induction n rule: less_induct)
  case (less n)
  show ?case
  proof (cases "even n")
    case True
    then obtain m where m: "n = 2 * m" by (elim evenE)
    with less.prems have mpos: "0 < m" by simp
    have "n AND (n - 1) = 2 * (m AND (m - 1))"
      unfolding m by (rule and_double_pred [OF mpos])
    with less.prems have "m AND (m - 1) = 0" by simp
    moreover have "m < n" using m mpos by simp
    ultimately obtain k where "m = 2 ^ k" using less.IH mpos by blast
    then have "n = 2 ^ Suc k" using m by simp
    then show ?thesis by blast
  next
    case False
    then obtain m where m: "n = 2 * m + 1" by (elim oddE)
    then have "n AND (n - 1) = 2 * m"
      using and_odd_pred [of m] by simp
    with less.prems have "m = 0" by simp
    then have "n = 2 ^ 0" using m by simp
    then show ?thesis by blast
  qed
qed

lemma unat_2p: "k < 64 \<Longrightarrow> unat (2 ^ k :: 64 word) = 2 ^ k"
proof -
  assume k: "k < 64"
  have "(2 ^ k :: 64 word) = word_of_nat (2 ^ k)" by simp
  then have "unat (2 ^ k :: 64 word) = 2 ^ k mod 2 ^ 64"
    by (simp only: unat_of_nat len_bit0 len_num1) simp
  moreover have "(2::nat) ^ k < 2 ^ 64" using k by (intro power_strict_increasing) simp_all
  ultimately show ?thesis by simp
qed

lemma and_mask_unat0: "k < 64 \<Longrightarrow> unat ((x :: 64 word) AND (2 ^ k - 1)) = unat x mod 2 ^ k"
proof -
  have "(x AND (2 ^ k - 1)) = take_bit k x"
    by (simp add: take_bit_eq_mask mask_eq_decr_exp)
  then have "unat (x AND (2 ^ k - 1)) = take_bit k (unat x)"
    by (simp only: unsigned_take_bit_eq)
  then show ?thesis by (simp only: take_bit_eq_mod)
qed

lemma word_pow2_and_pred: "k < 64 \<Longrightarrow> (2 ^ k :: 64 word) AND (2 ^ k - 1) = 0"
proof -
  assume k: "k < 64"
  have "unat ((2 ^ k :: 64 word) AND (2 ^ k - 1)) = 0"
    using k by (simp add: and_mask_unat0 unat_2p)
  then show ?thesis by (simp add: unsigned_eq_0_iff)
qed


lemma pow2_capacity_exp:
  assumes "pow2_capacity c"
  shows "\<exists>k<64. c = 2 ^ k"
proof -
  from assms have nz: "c \<noteq> 0" and z: "c AND (c - 1) = 0"
    by (simp_all add: pow2_capacity_def static_assert_pow2_def)
  have "unat c AND (unat c - 1) = unat (c AND (c - 1))"
    using nz by (simp add: unsigned_and_eq unat_minus_one)
  with z have "unat c AND (unat c - 1) = 0" by simp
  moreover have "0 < unat c" using nz by (simp add: unat_gt_0)
  ultimately obtain k where k: "unat c = 2 ^ k"
    using nat_and_pred_zero by blast
  have "unat c < 2 ^ 64" using unsigned_less [of c] by simp
  with k have "(2::nat) ^ k < 2 ^ 64" by simp
  moreover have "(2::nat) ^ k < 2 ^ 64 \<longleftrightarrow> k < 64"
    by (rule power_strict_increasing_iff) simp
  ultimately have k64: "k < 64" by blast
  have "c = word_of_nat (unat c)" by simp
  also have "\<dots> = 2 ^ k" by (simp only: k) simp
  finally show ?thesis using k64 by blast
qed

lemma exp_pow2_capacity: "k < 64 \<Longrightarrow> pow2_capacity (2 ^ k)"
  using unat_2p [of k] word_pow2_and_pred [of k]
  by (auto simp: pow2_capacity_def static_assert_pow2_def)


lemma unat_mask:
  assumes "pow2_capacity c"
  shows "unat (x AND ring_mask c) = unat x mod unat c"
proof -
  from pow2_capacity_exp [OF assms] obtain k where "k < 64" "c = 2 ^ k" by blast
  then show ?thesis
    by (simp add: ring_mask_def and_mask_unat0 unat_2p)
qed

lemma capacity_dvd:
  assumes "pow2_capacity c"
  shows "unat c dvd 2 ^ 64" and "0 < unat c"
proof -
  from pow2_capacity_exp [OF assms] obtain k where k: "k < 64" "c = 2 ^ k" by blast
  then have u: "unat c = 2 ^ k" by (simp add: unat_2p)
  have "(2::nat) ^ k dvd 2 ^ 64" using k by (intro le_imp_power_dvd) simp
  with u show "unat c dvd 2 ^ 64" by simp
  from u show "0 < unat c" by simp
qed

lemma mask_less:
  assumes "pow2_capacity c"
  shows "x AND ring_mask c < c"
  using capacity_dvd(2) [OF assms] by (simp add: word_less_nat_alt unat_mask [OF assms])

lemma mask_eq_mod:
  assumes "pow2_capacity c"
  shows "x AND ring_mask c = x mod c"
  by (rule word_unat_eq_iff [THEN iffD2]) (simp add: unat_mask [OF assms] unat_mod)

lemma unat_plus_mask:
  assumes "pow2_capacity c"
  shows "unat ((x + y) AND ring_mask c) = (unat x + unat y) mod unat c"
proof -
  have "unat ((x + y) AND ring_mask c) = (unat x + unat y) mod 2 ^ 64 mod unat c"
    by (simp add: unat_mask [OF assms] unat_word_ariths)
  also have "\<dots> = (unat x + unat y) mod unat c"
    using capacity_dvd(1) [OF assms] by (rule mod_mod_cancel)
  finally show ?thesis .
qed

lemma unat_next:
  assumes "pow2_capacity c"
  shows "unat ((x + 1) AND ring_mask c) = (unat x + 1) mod unat c"
  using unat_plus_mask [OF assms, of x 1] by simp

lemma unat_slot:
  assumes "pow2_capacity c"
  shows "unat ((x + word_of_nat i) AND ring_mask c) = (unat x + i) mod unat c"
proof -
  have "unat ((x + word_of_nat i) AND ring_mask c) = (unat x + i mod 2 ^ 64) mod unat c"
    using unat_plus_mask [OF assms, of x "word_of_nat i"] by (simp add: unat_of_nat)
  also have "\<dots> = (unat x mod unat c + i mod 2 ^ 64 mod unat c) mod unat c"
    by (simp add: mod_add_eq)
  also have "i mod 2 ^ 64 mod unat c = i mod unat c"
    using capacity_dvd(1) [OF assms] by (rule mod_mod_cancel)
  also have "(unat x mod unat c + i mod unat c) mod unat c = (unat x + i) mod unat c"
    by (simp add: mod_add_eq)
  finally show ?thesis .
qed

lemma unat_minus_mask:
  assumes "pow2_capacity c" "x < c" "y < c"
  shows "unat ((x - y) AND ring_mask c) = (unat x + unat c - unat y) mod unat c"
proof -
  have xy: "unat x < unat c" "unat y < unat c"
    using assms by (simp_all add: word_less_nat_alt)
  from capacity_dvd(1) [OF assms(1)] obtain q where q: "(2::nat) ^ 64 = unat c * q"
    by (elim dvdE)
  show ?thesis
  proof (cases "unat y \<le> unat x")
    case True
    then have "unat (x - y) = unat x - unat y" by (simp add: unat_sub_if')
    moreover have "unat x + unat c - unat y = (unat x - unat y) + unat c" using True by simp
    ultimately show ?thesis by (simp add: unat_mask [OF assms(1)])
  next
    case False
    then have "unat (x - y) = unat x + 2 ^ 64 - unat y" by (simp add: unat_sub_if')
    moreover have "q \<noteq> 0" using q by (cases "q = 0") simp_all
    then obtain q' where "q = Suc q'" by (cases q) simp_all
    with q have "unat x + 2 ^ 64 - unat y = (unat x + unat c - unat y) + unat c * q'"
      using xy by simp
    ultimately have "unat (x - y) mod unat c = (unat x + unat c - unat y) mod unat c"
      by (simp only: mod_mult_self2)
    then show ?thesis by (simp add: unat_mask [OF assms(1)])
  qed
qed

section \<open>The single-item operations\<close>

lemma ring_ok_unat:
  assumes "ring_ok c rb"
  shows "unat (head rb) < unat c" "unat (tail rb) < unat c" "length (buf rb) = unat c"
  using assms by (simp_all add: ring_ok_def word_less_nat_alt)

lemma occupied_nat:
  assumes "pow2_capacity c" "ring_ok c rb"
  shows "occupied c rb = (unat (head rb) + unat c - unat (tail rb)) mod unat c"
  using assms by (simp add: occupied_def ring_ok_def unat_minus_mask)

lemma length_content: "length (content c rb) = occupied c rb"
  by (simp add: content_def)

lemma content_nat:
  assumes "pow2_capacity c"
  shows "content c rb = map (\<lambda>i. buf rb ! ((unat (tail rb) + i) mod unat c)) [0..<occupied c rb]"
  by (simp add: content_def unat_slot [OF assms])

lemma try_push_full: 
  "(head rb + 1) AND ring_mask c = tail rb \<Longrightarrow> try_push c x rb = Some (False, rb)"
  by (simp add: try_push_def Let_def)

lemma try_push_room:
  assumes "ring_ok c rb" "(head rb + 1) AND ring_mask c \<noteq> tail rb"
  shows "try_push c x rb =
    Some (True, rb\<lparr>buf := (buf rb)[unat (head rb) := x], head := (head rb + 1) AND ring_mask c\<rparr>)"
  using assms ring_ok_unat [OF assms(1)] by (simp add: try_push_def Let_def)

lemma try_pop_empty:
  "tail rb = head rb \<Longrightarrow> try_pop c out rb = Some (False, out, rb)"
  by (simp add: try_pop_def Let_def)

lemma try_pop_some:
  assumes "ring_ok c rb" "tail rb \<noteq> head rb"
  shows "try_pop c out rb =
    Some (True, buf rb ! unat (tail rb), rb\<lparr>tail := (tail rb + 1) AND ring_mask c\<rparr>)"
  using assms ring_ok_unat [OF assms(1)] by (simp add: try_pop_def Let_def)

lemma try_push_ring_ok:
  assumes "pow2_capacity c" "ring_ok c rb" "try_push c x rb = Some (ok, rb')"
  shows "ring_ok c rb'"
proof (cases "(head rb + 1) AND ring_mask c = tail rb")
  case True
  with assms show ?thesis by (simp add: try_push_full)
next
  case False
  with assms(2,3) have "rb' = rb\<lparr>buf := (buf rb)[unat (head rb) := x], head := (head rb + 1) AND ring_mask c\<rparr>"
    by (simp add: try_push_room)
  with assms(2) mask_less [OF assms(1)] show ?thesis by (simp add: ring_ok_def)
qed

lemma try_pop_ring_ok:
  assumes "pow2_capacity c" "ring_ok c rb" "try_pop c out rb = Some (ok, out', rb')"
  shows "ring_ok c rb'"
proof (cases "tail rb = head rb")
  case True
  with assms show ?thesis by (simp add: try_pop_empty)
next
  case False
  with assms(2,3) have "rb' = rb\<lparr>tail := (tail rb + 1) AND ring_mask c\<rparr>"
    by (simp add: try_pop_some)
  with assms(2) mask_less [OF assms(1)] show ?thesis by (simp add: ring_ok_def)
qed

lemma construct_ring_ok: "pow2_capacity c \<Longrightarrow> ring_ok c (construct c z)"
  by (simp add: ring_ok_def construct_def pow2_capacity_def word_neq_0_conv)

lemma push_content:
  assumes c: "pow2_capacity c" and ok: "ring_ok c rb"
    and push: "try_push c x rb = Some (True, rb')"
  shows "occupied c rb' = occupied c rb + 1" and "content c rb' = content c rb @ [x]"
proof -
  let ?H = "unat (head rb)" and ?T = "unat (tail rb)" and ?C = "unat c"
  note b = ring_ok_unat [OF ok]
  from push have room: "(head rb + 1) AND ring_mask c \<noteq> tail rb"
    by (auto simp: try_push_full)
  with ok push have rb': "rb' = rb\<lparr>buf := (buf rb)[?H := x], head := (head rb + 1) AND ring_mask c\<rparr>"
    by (simp add: try_push_room)
  have ok': "ring_ok c rb'" using c ok push by (rule try_push_ring_ok)
  have "unat ((head rb + 1) AND ring_mask c) \<noteq> ?T"
    using room word_unat_eq_iff by blast
  then have next_ne: "(?H + 1) mod ?C \<noteq> ?T"
    by (simp add: unat_next [OF c])
  have "unat (head rb') = (?H + 1) mod ?C" "tail rb' = tail rb"
    by (simp_all add: rb' unat_next [OF c])
  with occupied_nat [OF c ok'] have "occupied c rb' = ((?H + 1) mod ?C + ?C - ?T) mod ?C"
    by simp
  also have "\<dots> = (?H + ?C - ?T) mod ?C + 1"
    using b(1,2) next_ne by (rule count_after_push)
  finally show occ: "occupied c rb' = occupied c rb + 1"
    by (simp add: occupied_nat [OF c ok])
  have old: "(buf rb)[?H := x] ! ((?T + i) mod ?C) = buf rb ! ((?T + i) mod ?C)"
    if "i < occupied c rb" for i
    using slot_before_head [OF b(1,2), of i] that by (simp add: occupied_nat [OF c ok])
  have new: "(buf rb)[?H := x] ! ((?T + occupied c rb) mod ?C) = x"
    using slot_of_head [OF b(1,2)] b by (simp add: occupied_nat [OF c ok])
  have "content c rb' =
      map (\<lambda>i. (buf rb)[?H := x] ! ((?T + i) mod ?C)) [0..<occupied c rb] @
      [(buf rb)[?H := x] ! ((?T + occupied c rb) mod ?C)]"
    by (simp add: content_nat [OF c] occ) (simp add: rb')
  also have "map (\<lambda>i. (buf rb)[?H := x] ! ((?T + i) mod ?C)) [0..<occupied c rb] = content c rb"
    unfolding content_nat [OF c] by (rule map_cong) (simp_all add: old)
  finally show "content c rb' = content c rb @ [x]"
    by (simp only: new)
qed

lemma pop_content:
  assumes c: "pow2_capacity c" and ok: "ring_ok c rb"
    and pop: "try_pop c out rb = Some (True, out', rb')"
  shows "occupied c rb = occupied c rb' + 1" and "content c rb = out' # content c rb'"
proof -
  let ?H = "unat (head rb)" and ?T = "unat (tail rb)" and ?C = "unat c"
  note b = ring_ok_unat [OF ok]
  from pop have ne: "tail rb \<noteq> head rb"
    by (auto simp: try_pop_empty)
  with ok pop have rb': "rb' = rb\<lparr>tail := (tail rb + 1) AND ring_mask c\<rparr>"
    and out': "out' = buf rb ! ?T"
    by (simp_all add: try_pop_some)
  have ok': "ring_ok c rb'" using c ok pop by (rule try_pop_ring_ok)
  have "?T \<noteq> ?H" using ne word_unat_eq_iff by blast
  with b(1,2) have "(?H + ?C - ?T) mod ?C = (?H + ?C - (?T + 1) mod ?C) mod ?C + 1"
    by (rule count_before_pop)
  moreover have "unat (tail rb') = (?T + 1) mod ?C" "head rb' = head rb"
    by (simp_all add: rb' unat_next [OF c])
  with occupied_nat [OF c ok'] have "occupied c rb' = (?H + ?C - (?T + 1) mod ?C) mod ?C"
    by simp
  ultimately show occ: "occupied c rb = occupied c rb' + 1"
    by (simp add: occupied_nat [OF c ok])
  have "[0..<occupied c rb] = 0 # map Suc [0..<occupied c rb']"
    by (simp add: occ upt_conv_Cons map_Suc_upt del: upt_Suc)
  then have "content c rb =
      buf rb ! (?T mod ?C) # map (\<lambda>i. buf rb ! ((?T + Suc i) mod ?C)) [0..<occupied c rb']"
    by (simp add: content_nat [OF c] comp_def)
  also have "?T mod ?C = ?T" using b(2) by simp
  also have "map (\<lambda>i. buf rb ! ((?T + Suc i) mod ?C)) [0..<occupied c rb'] = content c rb'"
    unfolding content_nat [OF c] 
    by (rule map_cong) (simp_all add: rb' unat_next [OF c] mod_add_left_eq)
  finally show "content c rb = out' # content c rb'"
    by (simp only: out')
qed

subsection \<open>Concrete capacities\<close>

lemma pow2_capacity_4: "pow2_capacity 4"
  by (simp add: pow2_capacity_def static_assert_pow2_def)

lemma construct_4: "construct 4 z = \<lparr>head = 0, tail = 0, buf = [z, z, z, z]\<rparr>"
proof -
  have "replicate (4::nat) z = [z, z, z, z]" by (simp add: eval_nat_numeral)
  then show ?thesis by (simp add: construct_def)
qed

lemma pow2_capacity_16: "pow2_capacity 16"
  by (simp add: pow2_capacity_def static_assert_pow2_def)

section \<open>What the single-item operations do\<close>

text \<open>
  Claim C1. In every state of a ring whose capacity is a power of two, \<open>try_push\<close>
  returns false and changes nothing when \<open>(head + 1) mod Capacity = tail\<close>;
  otherwise it writes the value into slot \<open>head\<close>, advances \<open>head\<close> to
  \<open>(head + 1) mod Capacity\<close> and returns true. So it returns false exactly when
  \<open>(head + 1) mod Capacity = tail\<close>.
\<close>

theorem try_push_correct:
  assumes "pow2_capacity c" and "ring_ok c rb"
  shows "try_push c x rb =
    (if (head rb + 1) mod c = tail rb then Some (False, rb)
     else Some (True, rb\<lparr>buf := (buf rb)[unat (head rb) := x], head := (head rb + 1) mod c\<rparr>))"
proof (cases "(head rb + 1) mod c = tail rb")
  case True
  then show ?thesis by (simp add: try_push_full mask_eq_mod [OF assms(1)])
next
  case False
  then have "(head rb + 1) AND ring_mask c \<noteq> tail rb" 
    by (simp add: mask_eq_mod [OF assms(1)])
  from try_push_room [OF assms(2) this] False show ?thesis
    by (simp add: mask_eq_mod [OF assms(1)])
qed

theorem try_push_correct_witness:
  "pow2_capacity 4 \<and> ring_ok 4 (construct 4 (0::nat)) \<and>
   try_push 4 7 (construct 4 (0::nat)) = Some (True, \<lparr>head = 1, tail = 0, buf = [7, 0, 0, 0]\<rparr>)"
proof -
  have c: "pow2_capacity 4" by (simp add: pow2_capacity_def static_assert_pow2_def)
  have ok: "ring_ok 4 (construct 4 (0::nat))" by (simp add: ring_ok_def construct_4)
  from try_push_correct [OF c ok, of 7] c ok show ?thesis
    by (simp add: construct_4)
qed

text \<open>
  Claim C2. In every state of a ring whose capacity is a power of two, \<open>try_pop\<close>
  returns false when \<open>tail = head\<close>; otherwise it copies the payload of slot
  \<open>tail\<close> into \<open>out\<close>, advances \<open>tail\<close> to \<open>(tail + 1) mod Capacity\<close> and
  returns true.
\<close>

theorem try_pop_correct:
  assumes "pow2_capacity c" and "ring_ok c rb"
  shows "try_pop c out rb =
    (if tail rb = head rb then Some (False, out, rb)
     else Some (True, buf rb ! unat (tail rb), rb\<lparr>tail := (tail rb + 1) mod c\<rparr>))"
proof (cases "tail rb = head rb")
  case True
  then show ?thesis by (simp add: try_pop_empty)
next
  case False
  from try_pop_some [OF assms(2) this] False show ?thesis
    by (simp add: mask_eq_mod [OF assms(1)])
qed

theorem try_pop_correct_witness:
  "pow2_capacity 4 \<and> ring_ok 4 \<lparr>head = 1, tail = 0, buf = [7, 0, 0, 0 :: nat]\<rparr> \<and>
   try_pop 4 0 \<lparr>head = 1, tail = 0, buf = [7, 0, 0, 0 :: nat]\<rparr>
     = Some (True, 7, \<lparr>head = 1, tail = 1, buf = [7, 0, 0, 0]\<rparr>)"
proof -
  have c: "pow2_capacity 4" by (simp add: pow2_capacity_def static_assert_pow2_def)
  have ok: "ring_ok 4 \<lparr>head = 1, tail = 0, buf = [7, 0, 0, 0 :: nat]\<rparr>" by (simp add: ring_ok_def)
  from try_pop_correct [OF c ok, of 0] c ok show ?thesis
    by simp
qed

text \<open>
  Claim C5. \<open>try_push\<close> on a full ring and \<open>try_pop\<close> on an empty ring return
  false at once (both are defined without recursion) and leave \<open>head\<close>, \<open>tail\<close>,
  every slot and the variable behind \<open>out\<close> as they were.
\<close>

theorem full_or_empty_unchanged:
  assumes "pow2_capacity c"
  shows "((head rb + 1) mod c = tail rb \<longrightarrow> try_push c x rb = Some (False, rb)) \<and>
         (tail rb = head rb \<longrightarrow> try_pop c out rb = Some (False, out, rb))"
  by (simp add: try_push_full try_pop_empty mask_eq_mod [OF assms])

theorem full_or_empty_unchanged_witness:
  "pow2_capacity 4 \<and>
   (((3 :: size_t) + 1) mod 4 = 0 \<and>
      try_push 4 9 \<lparr>head = 3, tail = 0, buf = [1, 2, 3, 4 :: nat]\<rparr>
        = Some (False, \<lparr>head = 3, tail = 0, buf = [1, 2, 3, 4]\<rparr>)) \<and>
   try_pop 4 5 \<lparr>head = 2, tail = 2, buf = [1, 2, 3, 4 :: nat]\<rparr>
        = Some (False, 5, \<lparr>head = 2, tail = 2, buf = [1, 2, 3, 4]\<rparr>)"
proof -
  have c: "pow2_capacity 4" by (simp add: pow2_capacity_def static_assert_pow2_def)
  from full_or_empty_unchanged [OF c, of "\<lparr>head = 3, tail = 0, buf = [1, 2, 3, 4 :: nat]\<rparr>" 9]
    full_or_empty_unchanged [OF c, of "\<lparr>head = 2, tail = 2, buf = [1, 2, 3, 4 :: nat]\<rparr>" _ 5] c
  show ?thesis by simp
qed

section \<open>Sequences of calls on one ring\<close>

lemma construct_2: "construct 2 z = \<lparr>head = 0, tail = 0, buf = [z, z]\<rparr>"
proof -
  have "replicate (2::nat) z = [z, z]" by (simp add: eval_nat_numeral)
  then show ?thesis by (simp add: construct_def)
qed

lemma do_call_invariant:
  assumes c: "pow2_capacity c" and ok: "ring_ok c (ring s)"
    and fifo: "accepted s = delivered s @ content c (ring s)"
  shows "\<exists>s'. do_call c call s = Some s' \<and> ring_ok c (ring s') \<and>
           accepted s' = delivered s' @ content c (ring s')"
proof (cases call)
  case (Push x)
  show ?thesis
  proof (cases "(head (ring s) + 1) AND ring_mask c = tail (ring s)")
    case True
    with Push ok fifo show ?thesis by (simp add: try_push_full)
  next
    case False
    from try_push_room [OF ok False, of x] obtain rb'
      where push: "try_push c x (ring s) = Some (True, rb')" by blast
    from push_content(2) [OF c ok push] try_push_ring_ok [OF c ok push] Push push fifo
    show ?thesis by simp
  qed
next
  case Pop
  show ?thesis
  proof (cases "tail (ring s) = head (ring s)")
    case True
    with Pop ok fifo show ?thesis by (simp add: try_pop_empty)
  next
    case False
    from try_pop_some [OF ok False, of "val s"] obtain out' rb'
      where pop: "try_pop c (val s) (ring s) = Some (True, out', rb')" by blast
    from pop_content(2) [OF c ok pop] try_pop_ring_ok [OF c ok pop] Pop pop fifo
    show ?thesis by simp
  qed
qed

lemma run_calls_invariant:
  assumes c: "pow2_capacity c"
  shows "ring_ok c (ring s) \<Longrightarrow> accepted s = delivered s @ content c (ring s) \<Longrightarrow>
    \<exists>s'. run_calls c calls s = Some s' \<and> ring_ok c (ring s') \<and>
           accepted s' = delivered s' @ content c (ring s')"
proof (induction calls arbitrary: s)
  case Nil
  then show ?case by simp
next
  case (Cons call calls)
  from do_call_invariant [OF c Cons.prems, of call] obtain s1
    where s1: "do_call c call s = Some s1" "ring_ok c (ring s1)"
      "accepted s1 = delivered s1 @ content c (ring s1)" by blast
  from Cons.IH [OF s1(2,3)] s1(1) show ?case by simp
qed

lemma content_construct: "pow2_capacity c \<Longrightarrow> content c (construct c z) = []"
  by (simp add: content_def occupied_def construct_def)

lemma start_invariant:
  assumes "pow2_capacity c"
  shows "ring_ok c (ring (start c z))"
    and "accepted (start c z) = delivered (start c z) @ content c (ring (start c z))"
  using assms by (simp_all add: start_def construct_ring_ok content_construct)

lemma occupied_mod:
  assumes "pow2_capacity c"
  shows "occupied c rb = unat ((head rb - tail rb) mod c)"
  by (simp add: occupied_def mask_eq_mod [OF assms])

lemma occupied_bound:
  assumes "pow2_capacity c"
  shows "occupied c rb \<le> unat c - 1"
proof -
  have "occupied c rb < unat c"
    using mask_less [OF assms, of "head rb - tail rb"] by (simp add: occupied_def word_less_nat_alt)
  then show ?thesis by simp
qed

text \<open>
  Claim C3, as the specification words it, fails: the indices are stored masked, so
  once \<open>head\<close> has wrapped below \<open>tail\<close> the difference \<open>head - tail\<close> taken
  modulo \<open>2 ^ 64\<close> is neither the number of live elements nor at most
  \<open>Capacity - 1\<close>. After \<open>Push 10, Pop, Push 20\<close> on a ring of capacity 2 one
  element is live and \<open>head - tail\<close> is \<open>2 ^ 64 - 1\<close>.
\<close>

theorem live_count_counterexample:
  "run_calls 2 [Push 10, Pop, Push 20] (start 2 0) = Some wrapped_session \<and>
   live_elements wrapped_session = 1 \<and>
   unat (head (ring wrapped_session) - tail (ring wrapped_session)) = 18446744073709551615 \<and>
   \<not> unat (head (ring wrapped_session) - tail (ring wrapped_session)) \<le> unat (2 :: size_t) - 1"
proof -
  have run: "run_calls 2 [Push 10, Pop, Push 20] (start 2 0) = Some wrapped_session"
    by (simp add: start_def construct_2 try_push_def try_pop_def ring_mask_def
        wrapped_session_def)
  have live: "live_elements wrapped_session = 1"
    by (simp add: live_elements_def wrapped_session_def)
  have "head (ring wrapped_session) - tail (ring wrapped_session) = - 1"
    by (simp add: wrapped_session_def)
  moreover have "unat (- 1 :: size_t) = 18446744073709551615"
    by (simp add: unsigned_minus_1_eq_mask mask_eq_exp_minus_1)
  ultimately have diff:
    "unat (head (ring wrapped_session) - tail (ring wrapped_session)) = 18446744073709551615"
    by (simp only:)
  have "unat (2 :: size_t) - 1 = 1" by simp
  with diff have
    "\<not> unat (head (ring wrapped_session) - tail (ring wrapped_session)) \<le> unat (2 :: size_t) - 1"
    by (simp only:)
  with run live diff show ?thesis by (intro conjI)
qed

text \<open>
  Claim C3, amended. For a capacity that is a power of two, every sequence of
  \<open>try_push\<close> and \<open>try_pop\<close> calls on a freshly constructed ring runs without
  undefined behaviour, and in the state it reaches the number of live elements
  (pushed and not popped) is \<open>(head - tail) mod Capacity\<close> and is at most
  \<open>Capacity - 1\<close>.
\<close>

theorem live_count:
  assumes "pow2_capacity c"
  shows "\<exists>s. run_calls c calls (start c z) = Some s \<and>
           length (delivered s) \<le> length (accepted s) \<and>
           live_elements s = unat ((head (ring s) - tail (ring s)) mod c) \<and>
           live_elements s \<le> unat c - 1"
proof -
  from run_calls_invariant [OF assms start_invariant [OF assms], of calls z] obtain s
    where s: "run_calls c calls (start c z) = Some s"
      "accepted s = delivered s @ content c (ring s)" by blast
  from s(2) have len: "length (accepted s) = length (delivered s) + occupied c (ring s)"
    by (simp add: length_content)
  then have "live_elements s = occupied c (ring s)" by (simp add: live_elements_def)
  with s(1) len occupied_mod [OF assms, of "ring s"] occupied_bound [OF assms, of "ring s"]
  show ?thesis by simp
qed

theorem live_count_witness:
  "pow2_capacity 2 \<and>
   (\<exists>s. run_calls 2 [Push 10, Pop, Push 20] (start 2 (0::nat)) = Some s \<and>
           length (delivered s) \<le> length (accepted s) \<and>
           live_elements s = unat ((head (ring s) - tail (ring s)) mod 2) \<and>
           live_elements s \<le> unat (2 :: size_t) - 1)"
proof -
  have c: "pow2_capacity 2" by (simp add: pow2_capacity_def static_assert_pow2_def)
  from c live_count [OF c, of "[Push 10, Pop, Push 20]" "0 :: nat"]
  show ?thesis by (rule conjI)
qed

subsection \<open>Pushing and popping one value at a time\<close>

lemma next_differs:
  fixes H C :: nat
  assumes "H < C" "2 \<le> C"
  shows "(H + 1) mod C \<noteq> H"
proof -
  have "(H + 1) mod C = (if H + 1 < C then H + 1 else 0)"
    using assms(1) by (simp add: wrap_once)
  with assms show ?thesis by (simp split: if_splits)
qed

lemma push_then_pop:
  assumes c: "pow2_capacity c" and two: "2 \<le> unat c"
    and ok: "ring_ok c (ring s)" and empty: "head (ring s) = tail (ring s)"
  shows "\<exists>s'. run_calls c [Push x, Pop] s = Some s' \<and>
           ring_ok c (ring s') \<and> head (ring s') = tail (ring s') \<and>
           accepted s' = accepted s @ [x] \<and> delivered s' = delivered s @ [x]"
proof -
  let ?rb = "ring s"
  let ?next = "(head ?rb + 1) AND ring_mask c"
  note b = ring_ok_unat [OF ok]
  have "unat ?next \<noteq> unat (head ?rb)"
    using next_differs [OF b(1) two] by (simp add: unat_next [OF c])
  then have ne: "?next \<noteq> head ?rb" by auto
  with empty have room: "?next \<noteq> tail ?rb" by simp
  let ?rb1 = "?rb\<lparr>buf := (buf ?rb)[unat (head ?rb) := x], head := ?next\<rparr>"
  have push: "try_push c x ?rb = Some (True, ?rb1)"
    using ok room by (rule try_push_room)
  have ok1: "ring_ok c ?rb1" using c ok push by (rule try_push_ring_ok)
  have ne1: "tail ?rb1 \<noteq> head ?rb1" using ne empty by simp
  have pop: "try_pop c out ?rb1 = Some (True, x, ?rb1\<lparr>tail := ?next\<rparr>)" for out
    using try_pop_some [OF ok1 ne1, of out] b empty by simp
  have ok2: "ring_ok c (?rb1\<lparr>tail := ?next\<rparr>)"
    using c ok1 pop by (rule try_pop_ring_ok)
  from push pop ok2 show ?thesis by simp
qed

lemma run_calls_append:
  "run_calls c (calls @ rest) s =
     (case run_calls c calls s of None \<Rightarrow> None | Some s' \<Rightarrow> run_calls c rest s')"
  by (induction calls arbitrary: s) (simp_all split: option.splits)

lemma one_at_a_time_Cons: "one_at_a_time (x # xs) = [Push x, Pop] @ one_at_a_time xs"
  by (simp add: one_at_a_time_def)

lemma run_calls_one_at_a_time:
  assumes c: "pow2_capacity c" and two: "2 \<le> unat c"
  shows "ring_ok c (ring s) \<Longrightarrow> head (ring s) = tail (ring s) \<Longrightarrow>
    \<exists>s'. run_calls c (one_at_a_time xs) s = Some s' \<and>
           accepted s' = accepted s @ xs \<and> delivered s' = delivered s @ xs"
proof (induction xs arbitrary: s)
  case Nil
  then show ?case by (simp add: one_at_a_time_def)
next
  case (Cons x xs)
  from push_then_pop [OF c two Cons.prems, of x] obtain s1
    where s1: "run_calls c [Push x, Pop] s = Some s1" "ring_ok c (ring s1)"
      "head (ring s1) = tail (ring s1)"
      "accepted s1 = accepted s @ [x]" "delivered s1 = delivered s @ [x]" by blast
  from Cons.IH [OF s1(2,3)] obtain s'
    where s': "run_calls c (one_at_a_time xs) s1 = Some s'"
      "accepted s' = accepted s1 @ xs" "delivered s' = delivered s1 @ xs" by blast
  from s1(1) have "run_calls c (one_at_a_time (x # xs)) s = run_calls c (one_at_a_time xs) s1"
    by (simp only: one_at_a_time_Cons run_calls_append option.case)
  with s' s1(4,5) show ?case by simp
qed

text \<open>
  Claim C4. For a capacity that is a power of two, every sequence of \<open>try_push\<close>
  and \<open>try_pop\<close> calls on a freshly constructed ring runs without undefined
  behaviour, and the values accepted so far are the values delivered so far followed by
  the content of the ring: the popped values are a prefix of the pushed ones, in the
  order pushed. In particular, when no push fails (the accepted values are all the
  offered ones) the delivered values are an initial segment of the offered values.
  Pushing and popping the 1000 values 0, 1, ..., 999 one at a time through a ring of
  capacity 16 delivers exactly these values in this order.
\<close>

theorem fifo_order:
  "(pow2_capacity c \<longrightarrow>
     (\<exists>s. run_calls c calls (start c z) = Some s \<and>
          accepted s = delivered s @ content c (ring s) \<and>
          (accepted s = offered calls \<longrightarrow>
             delivered s = take (length (delivered s)) (offered calls)))) \<and>
   (\<exists>s. run_calls 16 (one_at_a_time (map word_of_nat [0..<1000])) (start 16 (0 :: 32 word)) = Some s \<and>
        accepted s = map word_of_nat [0..<1000] \<and>
        delivered s = map word_of_nat [0..<1000])"
proof (intro conjI impI)
  assume c: "pow2_capacity c"
  from run_calls_invariant [OF c start_invariant [OF c], of calls z] obtain s
    where s: "run_calls c calls (start c z) = Some s"
      "accepted s = delivered s @ content c (ring s)" by blast
  have "delivered s = take (length (delivered s)) (offered calls)"
    if "accepted s = offered calls"
    using that s(2) by (metis append_eq_conv_conj)
  with s show "\<exists>s. run_calls c calls (start c z) = Some s \<and>
          accepted s = delivered s @ content c (ring s) \<and>
          (accepted s = offered calls \<longrightarrow>
             delivered s = take (length (delivered s)) (offered calls))"
    by blast
next
  have two: "2 \<le> unat (16 :: size_t)" by simp
  have "ring_ok 16 (ring (start 16 (0 :: 32 word)))"
    using pow2_capacity_16 by (rule start_invariant(1))
  moreover have "head (ring (start 16 (0 :: 32 word))) = tail (ring (start 16 (0 :: 32 word)))"
    by (simp add: start_def construct_def)
  ultimately obtain s
    where "run_calls 16 (one_at_a_time (map word_of_nat [0..<1000])) (start 16 (0 :: 32 word)) = Some s"
      "accepted s = accepted (start 16 (0 :: 32 word)) @ map word_of_nat [0..<1000]"
      "delivered s = delivered (start 16 (0 :: 32 word)) @ map word_of_nat [0..<1000]"
    using run_calls_one_at_a_time [OF pow2_capacity_16 two] by blast
  then show "\<exists>s. run_calls 16 (one_at_a_time (map word_of_nat [0..<1000])) (start 16 (0 :: 32 word)) = Some s \<and>
        accepted s = map word_of_nat [0..<1000] \<and>
        delivered s = map word_of_nat [0..<1000]"
    by (simp add: start_def)
qed

theorem fifo_order_witness:
  "pow2_capacity 4 \<and>
   (\<exists>s. run_calls 4 [Push 1, Push 2, Push 3, Pop, Pop, Push 4, Pop, Pop] (start 4 (0 :: nat)) = Some s \<and>
        accepted s = offered [Push 1, Push 2, Push 3, Pop, Pop, Push 4, Pop, Pop] \<and>
        delivered s = [1, 2, 3, 4] \<and>
        delivered s = take (length (delivered s))
                        (offered [Push 1, Push 2, Push 3, Pop, Pop, Push 4, Pop, Pop]))"
proof -
  let ?calls = "[Push 1, Push 2, Push 3, Pop, Pop, Push 4, Pop, Pop] :: nat call list"
  let ?end = "\<lparr>ring = \<lparr>head = 0, tail = 0, buf = [1, 2, 3, 4]\<rparr>, val = 4,
               accepted = [1, 2, 3, 4], delivered = [1, 2, 3, 4]\<rparr> :: nat session"
  have run: "run_calls 4 ?calls (start 4 0) = Some ?end"
    by (simp add: start_def construct_4 try_push_def try_pop_def ring_mask_def)
  have acc: "accepted ?end = offered ?calls" by simp
  from fifo_order [of 4 ?calls 0, THEN conjunct1, THEN mp, OF pow2_capacity_4] obtain s
    where s: "run_calls 4 ?calls (start 4 0) = Some s"
      "accepted s = offered ?calls \<longrightarrow> delivered s = take (length (delivered s)) (offered ?calls)"
    by (elim conjE exE)
  from s(1) run have "s = ?end" by simp
  with s(2) acc have "delivered ?end = take (length (delivered ?end)) (offered ?calls)"
    by (simp only:)
  with run acc pow2_capacity_4 show ?thesis by simp
qed

section \<open>The batch operations\<close>

lemma unat_succ_below:
  fixes p n :: size_t
  assumes "p < n"
  shows "unat (p + 1) = Suc (unat p)" and "p + 1 \<le> n"
proof -
  from assms have lt: "unat p < unat n" by (simp add: word_less_nat_alt)
  moreover have "unat n < 2 ^ 64" using unsigned_less [of n] by simp
  ultimately show u: "unat (p + 1) = Suc (unat p)" by (simp add: unat_word_ariths)
  with lt show "p + 1 \<le> n" by (simp add: word_le_nat_alt)
qed

lemma push_many_loop_each:
  "unat n \<le> length xs \<Longrightarrow> p \<le> n \<Longrightarrow>
   push_many_loop c xs n p rb =
     map_option (\<lambda>(k, rb'). (p + word_of_nat k, rb'))
       (push_each c (drop (unat p) (take (unat n) xs)) rb)"
proof (induction c xs n p rb rule: push_many_loop.induct)
  case (1 c xs n p rb)
  show ?case
  proof (cases "p < n")
    case False
    with "1.prems" have "p = n" by simp
    then show ?thesis by (subst push_many_loop.simps) simp
  next
    case True
    note succ = unat_succ_below [OF True]
    from True have lt: "unat p < unat n" by (simp add: word_less_nat_alt)
    with "1.prems" have inb: "unat p < length xs" by simp
    have split: "drop (unat p) (take (unat n) xs) =
        xs ! unat p # drop (unat (p + 1)) (take (unat n) xs)"
      using lt inb by (simp add: succ(1) Cons_nth_drop_Suc [symmetric])
    show ?thesis
    proof (cases "try_push c (xs ! unat p) rb")
      case None
      with True inb split show ?thesis by (subst push_many_loop.simps) simp
    next
      case (Some res)
      obtain ok rb' where res: "res = (ok, rb')" by (cases res)
      show ?thesis
      proof (cases ok)
        case False
        with True inb split Some res show ?thesis by (subst push_many_loop.simps) simp
      next
        case ok: True
        have "push_many_loop c xs n (p + 1) rb' =
            map_option (\<lambda>(k, rb''). (p + 1 + word_of_nat k, rb''))
              (push_each c (drop (unat (p + 1)) (take (unat n) xs)) rb')"
          using "1.IH" [OF True inb Some res [symmetric] _ "1.prems"(1) succ(2)] ok by simp
        with True inb split Some res ok show ?thesis
          by (subst push_many_loop.simps)
            (simp add: option.map_comp comp_def case_prod_unfold add.assoc)
      qed
    qed
  qed
qed


lemma try_pop_failed:
  "try_pop c d rb = Some (False, out, rb') \<Longrightarrow> out = d \<and> rb' = rb"
  by (simp add: try_pop_def Let_def split: if_splits)

lemma pop_many_loop_each:
  "unat n \<le> length xs \<Longrightarrow> p \<le> n \<Longrightarrow>
   pop_many_loop c xs n p rb =
     map_option
       (\<lambda>(ys, rb'). (p + word_of_nat (length ys),
                      take (unat p) xs @ ys @ drop (unat p + length ys) xs, rb'))
       (pop_each c (drop (unat p) (take (unat n) xs)) rb)"
proof (induction c xs n p rb rule: pop_many_loop.induct)
  case (1 c xs n p rb)
  show ?case
  proof (cases "p < n")
    case False
    with "1.prems" have "p = n" by simp
    then show ?thesis by (subst pop_many_loop.simps) simp
  next
    case True
    note succ = unat_succ_below [OF True]
    from True have lt: "unat p < unat n" by (simp add: word_less_nat_alt)
    with "1.prems" have inb: "unat p < length xs" by simp
    have split: "drop (unat p) (take (unat n) xs) =
        xs ! unat p # drop (unat (p + 1)) (take (unat n) xs)"
      using lt inb by (simp add: succ(1) Cons_nth_drop_Suc [symmetric])
    show ?thesis
    proof (cases "try_pop c (xs ! unat p) rb")
      case None
      with True inb split show ?thesis by (subst pop_many_loop.simps) simp
    next
      case (Some res)
      obtain ok out rb' where res: "res = (ok, out, rb')" by (cases res)
      show ?thesis
      proof (cases ok)
        case False
        with Some res have "try_pop c (xs ! unat p) rb = Some (False, out, rb')" by simp
        then have "out = xs ! unat p \<and> rb' = rb" by (rule try_pop_failed)
        with False True inb split Some res show ?thesis
          by (subst pop_many_loop.simps) simp
      next
        case ok: True
        let ?xs' = "xs[unat p := out]"
        have len: "unat n \<le> length ?xs'" using "1.prems"(1) by simp
        have rest: "drop (unat (p + 1)) (take (unat n) ?xs') = drop (unat (p + 1)) (take (unat n) xs)"
          by (simp add: succ(1) take_update_swap)
        have front: "take (unat (p + 1)) ?xs' = take (unat p) xs @ [out]"
          using inb by (simp add: succ(1) take_Suc_conv_app_nth)
        have behind: "drop (unat (p + 1) + m) ?xs' = drop (Suc (unat p + m)) xs" for m
          by (simp add: succ(1))
        have "pop_many_loop c ?xs' n (p + 1) rb' =
            map_option
              (\<lambda>(ys, rb''). (p + 1 + word_of_nat (length ys),
                  take (unat (p + 1)) ?xs' @ ys @ drop (unat (p + 1) + length ys) ?xs', rb''))
              (pop_each c (drop (unat (p + 1)) (take (unat n) ?xs')) rb')"
          using "1.IH" [OF True inb Some res [symmetric] refl _ len succ(2)] ok by simp
        with True inb split Some res ok show ?thesis
          by (subst pop_many_loop.simps)
            (simp add: rest front behind option.map_comp comp_def case_prod_unfold add.assoc)
      qed
    qed
  qed
qed

lemma push_each_count:
  "push_each c xs rb = Some (k, rb') \<Longrightarrow> k \<le> length xs"
proof (induction xs arbitrary: k rb)
  case Nil
  then show ?case by simp
next
  case (Cons x xs)
  then show ?case
    by (fastforce split: option.splits if_splits)
qed

lemma pop_each_count:
  "pop_each c ds rb = Some (ys, rb') \<Longrightarrow> length ys \<le> length ds"
proof (induction ds arbitrary: ys rb)
  case Nil
  then show ?case by simp
next
  case (Cons d ds)
  then show ?case
    by (fastforce split: option.splits if_splits)
qed

lemma unat_count:
  fixes n :: size_t
  assumes "k \<le> unat n"
  shows "unat (word_of_nat k :: size_t) = k"
proof -
  have "unat n < 2 ^ 64" using unsigned_less [of n] by simp
  with assms have "k < 2 ^ 64" by simp
  then show ?thesis by (simp add: unat_of_nat)
qed

text \<open>
  Claim C6. For every ring state, array \<open>xs\<close> and count \<open>n\<close> within the array,
  \<open>push_many(xs, n)\<close> ends in the state that calling \<open>try_push\<close> on \<open>xs[0]\<close>,
  \<open>xs[1]\<close>, ... ends in, stopping at the first failure or after \<open>n\<close> successes,
  and returns the number of values pushed; \<open>pop_many(out, n)\<close> likewise is the
  iteration of \<open>try_pop\<close>, stopping at the first failure, stores the popped values
  at the front of the array and returns their number. The number returned is the
  count itself (it does not wrap), and undefined behaviour of one side is undefined
  behaviour of the other.
\<close>

theorem batch_refines_single:
  "(unat n \<le> length xs \<longrightarrow>
      push_many c xs n rb =
        map_option (\<lambda>(k, rb'). (word_of_nat k, rb')) (push_each c (take (unat n) xs) rb) \<and>
      (\<forall>k rb'. push_each c (take (unat n) xs) rb = Some (k, rb') \<longrightarrow>
         unat (word_of_nat k :: size_t) = k)) \<and>
   (unat n \<le> length ds \<longrightarrow>
      pop_many c ds n rb =
        map_option (\<lambda>(ys, rb'). (word_of_nat (length ys), ys @ drop (length ys) ds, rb'))
          (pop_each c (take (unat n) ds) rb) \<and>
      (\<forall>ys rb'. pop_each c (take (unat n) ds) rb = Some (ys, rb') \<longrightarrow>
         unat (word_of_nat (length ys) :: size_t) = length ys))"
proof (intro conjI impI allI)
  assume "unat n \<le> length xs"
  then show "push_many c xs n rb =
      map_option (\<lambda>(k, rb'). (word_of_nat k, rb')) (push_each c (take (unat n) xs) rb)"
    using push_many_loop_each [of n xs 0 c rb] by (simp add: push_many_def)
next
  fix k rb'
  assume "push_each c (take (unat n) xs) rb = Some (k, rb')"
  then have "k \<le> length (take (unat n) xs)" by (rule push_each_count)
  then have "k \<le> unat n" by simp
  then show "unat (word_of_nat k :: size_t) = k" by (rule unat_count)
next
  assume "unat n \<le> length ds"
  then show "pop_many c ds n rb =
      map_option (\<lambda>(ys, rb'). (word_of_nat (length ys), ys @ drop (length ys) ds, rb'))
        (pop_each c (take (unat n) ds) rb)"
    using pop_many_loop_each [of n ds 0 c rb] by (simp add: pop_many_def)
next
  fix ys rb'
  assume "pop_each c (take (unat n) ds) rb = Some (ys, rb')"
  then have "length ys \<le> length (take (unat n) ds)" by (rule pop_each_count)
  then have "length ys \<le> unat n" by simp
  then show "unat (word_of_nat (length ys) :: size_t) = length ys" by (rule unat_count)
qed

theorem batch_refines_single_witness:
  "unat (5 :: size_t) \<le> length [1, 2, 3, 4, 5 :: nat] \<and>
   push_many 4 [1, 2, 3, 4, 5] 5 (construct 4 (0 :: nat))
     = Some (3, \<lparr>head = 3, tail = 0, buf = [1, 2, 3, 0]\<rparr>) \<and>
   unat (2 :: size_t) \<le> length [0, 0 :: nat] \<and>
   pop_many 4 [0, 0] 2 \<lparr>head = 3, tail = 0, buf = [1, 2, 3, 0 :: nat]\<rparr>
     = Some (2, [1, 2], \<lparr>head = 3, tail = 2, buf = [1, 2, 3, 0]\<rparr>)"
proof -
  have n5: "unat (5 :: size_t) \<le> length [1, 2, 3, 4, 5 :: nat]" by simp
  have n2: "unat (2 :: size_t) \<le> length [0, 0 :: nat]" by simp
  have each5: "push_each 4 (take (unat (5 :: size_t)) [1, 2, 3, 4, 5 :: nat]) (construct 4 0)
      = Some (3, \<lparr>head = 3, tail = 0, buf = [1, 2, 3, 0]\<rparr>)"
    by (simp add: construct_4 try_push_def ring_mask_def)
  have each2: "pop_each 4 (take (unat (2 :: size_t)) [0, 0 :: nat])
        \<lparr>head = 3, tail = 0, buf = [1, 2, 3, 0 :: nat]\<rparr>
      = Some ([1, 2], \<lparr>head = 3, tail = 2, buf = [1, 2, 3, 0]\<rparr>)"
    by (simp add: try_pop_def ring_mask_def)
  have "push_many 4 [1, 2, 3, 4, 5] 5 (construct 4 (0 :: nat))
      = Some (3, \<lparr>head = 3, tail = 0, buf = [1, 2, 3, 0]\<rparr>)"
    using batch_refines_single [of 5 "[1, 2, 3, 4, 5 :: nat]" 4 "construct 4 0", THEN conjunct1, THEN mp, OF n5, THEN conjunct1]
    by (simp only: each5) simp
  moreover have "pop_many 4 [0, 0] 2 \<lparr>head = 3, tail = 0, buf = [1, 2, 3, 0 :: nat]\<rparr>
     = Some (2, [1, 2], \<lparr>head = 3, tail = 2, buf = [1, 2, 3, 0]\<rparr>)"
    using batch_refines_single [of 2 _ _ _ "[0, 0 :: nat]", THEN conjunct2, THEN mp, OF n2, THEN conjunct1,
        of 4 "\<lparr>head = 3, tail = 0, buf = [1, 2, 3, 0 :: nat]\<rparr>"]
    by (simp only: each2) simp
  ultimately show ?thesis using n5 n2 by (intro conjI)
qed

section \<open>The indices of a reachable ring\<close>

lemma push_many_loop_ring_ok:
  shows "pow2_capacity c \<Longrightarrow> ring_ok c rb \<Longrightarrow> push_many_loop c xs n p rb = Some (k, rb') \<Longrightarrow> ring_ok c rb'"
proof (induction c xs n p rb rule: push_many_loop.induct)
  case (1 c0 xs n p rb)
  show ?case
  proof (cases "p < n \<and> unat p < length xs")
    case False
    with "1.prems" show ?thesis
      by (subst (asm) push_many_loop.simps) (auto split: if_splits)
  next
    case True
    with "1.prems"(3) obtain ok rb1 where push: "try_push c0 (xs ! unat p) rb = Some (ok, rb1)"
      by (subst (asm) push_many_loop.simps) (auto split: option.splits)
    from "1.prems"(1,2) push have ok1: "ring_ok c0 rb1" by (rule try_push_ring_ok)
    show ?thesis
    proof (cases ok)
      case False
      with True push "1.prems"(3) have "rb' = rb1"
        by (subst (asm) push_many_loop.simps) simp
      with ok1 show ?thesis by simp
    next
      case ok: True
      with True push "1.prems"(3) have "push_many_loop c0 xs n (p + 1) rb1 = Some (k, rb')"
        by (subst (asm) push_many_loop.simps) simp
      with "1.IH" [OF _ _ push refl _ "1.prems"(1) ok1] True ok show ?thesis by simp
    qed
  qed
qed

lemma pop_many_loop_ring_ok:
  shows "pow2_capacity c \<Longrightarrow> ring_ok c rb \<Longrightarrow> pop_many_loop c xs n p rb = Some (k, xs', rb') \<Longrightarrow> ring_ok c rb'"
proof (induction c xs n p rb rule: pop_many_loop.induct)
  case (1 c0 xs n p rb)
  show ?case
  proof (cases "p < n \<and> unat p < length xs")
    case False
    with "1.prems" show ?thesis
      by (subst (asm) pop_many_loop.simps) (auto split: if_splits)
  next
    case True
    with "1.prems"(3) obtain ok out rb1
      where pop: "try_pop c0 (xs ! unat p) rb = Some (ok, out, rb1)"
      by (subst (asm) pop_many_loop.simps) (auto split: option.splits)
    from "1.prems"(1,2) pop have ok1: "ring_ok c0 rb1" by (rule try_pop_ring_ok)
    show ?thesis
    proof (cases ok)
      case False
      with True pop "1.prems"(3) have "rb' = rb1"
        by (subst (asm) pop_many_loop.simps) simp
      with ok1 show ?thesis by simp
    next
      case ok: True
      with True pop "1.prems"(3)
      have "pop_many_loop c0 (xs[unat p := out]) n (p + 1) rb1 = Some (k, xs', rb')"
        by (subst (asm) pop_many_loop.simps) simp
      with "1.IH" [OF _ _ pop refl refl _ "1.prems"(1) ok1] True ok show ?thesis by simp
    qed
  qed
qed

lemma reachable_ring_ok:
  assumes c: "pow2_capacity c"
  shows "reachable c rb \<Longrightarrow> ring_ok c rb"
proof (induction rule: reachable.induct)
  case (constructed z)
  from c show ?case by (rule construct_ring_ok)
next
  case (after_try_push rb x ok rb')
  with c show ?case by (blast intro: try_push_ring_ok)
next
  case (after_try_pop rb out ok out' rb')
  with c show ?case by (blast intro: try_pop_ring_ok)
next
  case (after_push_many rb xs n k rb')
  with c show ?case by (auto simp: push_many_def intro: push_many_loop_ring_ok)
next
  case (after_pop_many rb xs n k xs' rb')
  with c show ?case by (auto simp: pop_many_def intro: pop_many_loop_ring_ok)
qed

text \<open>
  Claim C10. For a capacity that is a power of two, every state reachable from
  construction by \<open>try_push\<close>, \<open>try_pop\<close>, \<open>push_many\<close> and \<open>pop_many\<close>
  calls has \<open>head\<close> and \<open>tail\<close> strictly below the capacity: the indices are
  stored masked.
\<close>

theorem indices_below_capacity:
  assumes "pow2_capacity c" and "reachable c rb"
  shows "head rb < c \<and> tail rb < c"
  using reachable_ring_ok [OF assms] by (simp add: ring_ok_def)

theorem indices_below_capacity_witness:
  "pow2_capacity 4 \<and> reachable 4 \<lparr>head = 1, tail = 0, buf = [7, 0, 0, 0 :: nat]\<rparr> \<and>
   head \<lparr>head = 1, tail = 0, buf = [7, 0, 0, 0 :: nat]\<rparr> < 4 \<and>
   tail \<lparr>head = 1, tail = 0, buf = [7, 0, 0, 0 :: nat]\<rparr> < 4"
proof -
  have "try_push 4 7 (construct 4 (0 :: nat)) = Some (True, \<lparr>head = 1, tail = 0, buf = [7, 0, 0, 0]\<rparr>)"
    by (simp add: construct_4 try_push_def ring_mask_def)
  with constructed [of 4 "0 :: nat"]
  have r: "reachable 4 \<lparr>head = 1, tail = 0, buf = [7, 0, 0, 0 :: nat]\<rparr>"
    by (rule after_try_push)
  from pow2_capacity_4 r indices_below_capacity [OF pow2_capacity_4 r] show ?thesis
    by (intro conjI) simp_all
qed

section \<open>Which capacities the class accepts\<close>

text \<open>
  Claim C7, as the specification words it, fails for the capacity 1: it is less than 2,
  the static assertion accepts it, and the ring it gives has a mask of 0, so that
  every \<open>try_push\<close> finds it full and every \<open>try_pop\<close> finds it empty.
\<close>

theorem capacity_one_accepted:
  "static_assert_pow2 1 \<and> (1 :: size_t) < 2 \<and>
   try_push 1 (7 :: nat) (construct 1 0) = Some (False, construct 1 0) \<and>
   try_pop 1 5 (construct 1 (0 :: nat)) = Some (False, 5, construct 1 0)"
  by (simp add: static_assert_pow2_def try_push_def try_pop_def construct_def ring_mask_def)

text \<open>
  Claim C7, amended. A capacity other than zero passes the static assertion exactly
  when it is a power of two: instantiating the class with a nonzero capacity that is
  not a power of two is rejected at compile time. (A capacity below 2 is not
  rejected as such: 1 is a power of two.)
\<close>

theorem static_assert_rejects:
  "c \<noteq> 0 \<Longrightarrow> static_assert_pow2 c \<longleftrightarrow> (\<exists>k<64. c = 2 ^ k)"
proof
  assume "c \<noteq> 0" "static_assert_pow2 c"
  then have "pow2_capacity c" by (simp add: pow2_capacity_def)
  then show "\<exists>k<64. c = 2 ^ k" by (rule pow2_capacity_exp)
next
  assume "\<exists>k<64. c = 2 ^ k"
  then obtain k where "k < 64" "c = 2 ^ k" by blast
  with exp_pow2_capacity [of k] show "static_assert_pow2 c"
    by (simp add: pow2_capacity_def)
qed

theorem static_assert_rejects_witness:
  "(16 :: size_t) \<noteq> 0 \<and> static_assert_pow2 16 \<and> (\<exists>k<64. (16 :: size_t) = 2 ^ k) \<and>
   (6 :: size_t) \<noteq> 0 \<and> \<not> static_assert_pow2 6 \<and> \<not> (\<exists>k<64. (6 :: size_t) = 2 ^ k)"
proof -
  have nz: "(16 :: size_t) \<noteq> 0" "(6 :: size_t) \<noteq> 0" by simp_all
  have a: "static_assert_pow2 16" and b: "\<not> static_assert_pow2 6"
    by (simp_all add: static_assert_pow2_def)
  from a static_assert_rejects [OF nz(1)] have "\<exists>k<64. (16 :: size_t) = 2 ^ k" by blast
  moreover from b static_assert_rejects [OF nz(2)] have "\<not> (\<exists>k<64. (6 :: size_t) = 2 ^ k)"
    by blast
  ultimately show ?thesis using nz a b by (intro conjI)
qed

section \<open>The sum of the sharded counters\<close>

lemma increment_shard:
  assumes "t < length shards"
  shows "\<exists>shards'. increment t shards = Some shards' \<and> length shards' = length shards \<and>
    (\<forall>u<length shards. v (shards' ! u) = v (shards ! u) + (if u = t then 1 else 0))"
  using assms by (simp add: increment_def nth_list_update)

lemma run_threads_counts:
  "list_all (\<lambda>t. t < length shards) sched \<Longrightarrow>
   \<exists>shards'. run_threads sched shards = Some shards' \<and> length shards' = length shards \<and>
     (\<forall>u<length shards. v (shards' ! u) = v (shards ! u) + word_of_nat (count_list sched u))"
proof (induction sched arbitrary: shards)
  case Nil
  then show ?case by simp
next
  case (Cons t sched)
  then have t: "t < length shards" and rest: "list_all (\<lambda>t. t < length shards) sched"
    by simp_all
  from increment_shard [OF t] obtain s1
    where s1: "increment t shards = Some s1" "length s1 = length shards"
      "\<forall>u<length shards. v (s1 ! u) = v (shards ! u) + (if u = t then 1 else 0)" by blast
  from rest s1(2) have "list_all (\<lambda>t. t < length s1) sched" by simp
  from Cons.IH [OF this] obtain s2
    where s2: "run_threads sched s1 = Some s2" "length s2 = length s1"
      "\<forall>u<length s1. v (s2 ! u) = v (s1 ! u) + word_of_nat (count_list sched u)" by blast
  have "v (s2 ! u) = v (shards ! u) + word_of_nat (count_list (t # sched) u)"
    if "u < length shards" for u
    using that s1(2,3) s2(3) by simp
  with s1 s2 show ?case by simp
qed

lemma reduction_sum: "foldl (\<lambda>sum pc. sum + v pc) a shards = a + sum_list (map v shards)"
  by (induction shards arbitrary: a) (simp_all add: add.assoc)

lemma sharded_total:
  assumes "joined_schedule N K sched"
  shows "BM_ShardedCounters N sched = Some (word_of_nat (N * K))"
proof -
  let ?zero = "replicate N \<lparr>v = 0\<rparr>"
  from assms have inb: "list_all (\<lambda>t. t < length ?zero) sched"
    and cnt: "\<And>t. t < N \<Longrightarrow> count_list sched t = K"
    by (simp_all add: joined_schedule_def list_all_iff)
  from run_threads_counts [OF inb] obtain shards
    where run: "run_threads sched ?zero = Some shards" and len: "length shards = N"
      and val: "\<forall>u<N. v (shards ! u) = v (?zero ! u) + word_of_nat (count_list sched u)"
    by auto
  have "map v shards = replicate N (word_of_nat K)"
    using len val cnt by (intro nth_equalityI) simp_all
  then have "reduction shards = word_of_nat (N * K)"
    by (simp add: reduction_def reduction_sum sum_list_replicate)
  with run show ?thesis by (simp add: BM_ShardedCounters_def)
qed

text \<open>
  Claim C8. With \<open>N\<close> shards starting at zero, each incremented exactly \<open>K\<close>
  times by its own thread under any interleaving of the threads, the reduction pass
  after the join yields exactly \<open>N * K\<close> (no wrap-around of the 64-bit sum), for
  \<open>N\<close> in \<open>{1, 2, 4, 8}\<close> and \<open>K\<close> in \<open>{1, 1000, 1000000}\<close>.
\<close>

theorem sharded_counters_total:
  assumes "N \<in> {1, 2, 4, 8}" and "K \<in> {1, 1000, 1000000}" and "joined_schedule N K sched"
  shows "BM_ShardedCounters N sched = Some (word_of_nat (N * K)) \<and>
         unat (word_of_nat (N * K) :: uint64_t) = N * K"
proof
  from assms(3) show "BM_ShardedCounters N sched = Some (word_of_nat (N * K))"
    by (rule sharded_total)
  from assms(1,2) have "N \<le> 8" "K \<le> 1000000" by auto
  then have "N * K \<le> 8 * 1000000" by (rule mult_le_mono)
  then have "N * K < 2 ^ 64" by simp
  then show "unat (word_of_nat (N * K) :: uint64_t) = N * K"
    by (simp del: of_nat_mult add: unat_of_nat)
qed

theorem sharded_counters_total_witness:
  "(2 :: nat) \<in> {1, 2, 4, 8} \<and> (1 :: nat) \<in> {1, 1000, 1000000} \<and>
   joined_schedule 2 1 [1, 0] \<and> BM_ShardedCounters 2 [1, 0] = Some 2"
proof -
  have n: "(2 :: nat) \<in> {1, 2, 4, 8}" and k: "(1 :: nat) \<in> {1, 1000, 1000000}" by simp_all
  have j: "joined_schedule 2 1 [1, 0]"
    by (simp add: joined_schedule_def eval_nat_numeral)
  from sharded_counters_total [OF n k j] have "BM_ShardedCounters 2 [1, 0] = Some 2" by simp
  with n k j show ?thesis by (intro conjI)
qed

end
